theory Spec2Isabelle
  imports Complex_Main
begin

section \<open>Data model\<close>

text \<open>
  The joint identifiers are the keys of \<^verbatim>\<open>WalkingEnginePivotOffsets\<close>, as listed in
  \<^verbatim>\<open>T_POSE\<close>. A pose maps every joint to a rotation in degrees. JavaScript numbers are
  modelled as reals: rounding, infinities and NaN are outside this development.
\<close>

datatype JointKey =
    waist | neck | collar | torso
  | l_shoulder | r_shoulder
  | l_elbow | r_elbow
  | l_hand | r_hand
  | l_hip | r_hip
  | l_knee | r_knee
  | l_foot | r_foot
  | l_toe | r_toe

type_synonym Pose = "JointKey \<Rightarrow> real"

text \<open>The keys of \<^verbatim>\<open>WalkingEngineProportions\<close> (\<^verbatim>\<open>PROP_KEYS\<close>), each with a width and a height scale.\<close>

datatype PartKey =
    p_head | p_collar | p_torso | p_waist
  | p_l_upper_arm | p_l_lower_arm | p_l_hand
  | p_r_upper_arm | p_r_lower_arm | p_r_hand
  | p_l_upper_leg | p_l_lower_leg | p_l_foot | p_l_toe
  | p_r_upper_leg | p_r_lower_leg | p_r_foot | p_r_toe

record Dims =
  dim_w :: real
  dim_h :: real

type_synonym Proportions = "PartKey \<Rightarrow> Dims"

datatype EasingType = Linear | EaseOut | EaseInOut

record Keyframe =
  kf_id :: string
  kf_pose :: Pose
  kf_time :: real
  kf_easing :: "EasingType option"

text \<open>
  \<^verbatim>\<open>HistoryState\<close>: the snapshots of the undo and redo stacks. The recording log holds
  snapshots (\<^verbatim>\<open>recordSnapshot\<close>) and bare messages (\<^verbatim>\<open>addLog\<close>, which stores only a
  timestamp and a label).
\<close>

record HistoryState =
  hs_pivotOffsets :: Pose
  hs_props :: Proportions
  hs_timestamp :: nat
  hs_label :: "string option"

datatype LogEntry = LogMessage nat string | LogSnapshot HistoryState

text \<open>The part of the \<^verbatim>\<open>App\<close> component's state that the operations below read or write.\<close>

record AppState =
  pivotOffsets :: Pose
  props :: Proportions
  history :: "HistoryState list"
  redoStack :: "HistoryState list"
  recordingHistory :: "LogEntry list"
  keyframes :: "Keyframe list"
  selectedKeyframeIndex :: "nat option"
  isAnimating :: bool
  isTransitioning :: bool
  isInteracting :: bool
  animationTime :: real

section \<open>History store\<close>

text \<open>\<^verbatim>\<open>prev.slice(-n)\<close>: the last \<open>n\<close> elements.\<close>

definition slice_last :: "nat \<Rightarrow> 'a list \<Rightarrow> 'a list" where
  "slice_last n xs = drop (length xs - n) xs"

definition addLog :: "nat \<Rightarrow> string \<Rightarrow> AppState \<Rightarrow> AppState" where
  "addLog now message s =
     s\<lparr>recordingHistory := slice_last 99 (recordingHistory s) @ [LogMessage now message]\<rparr>"

definition currentSnapshot :: "nat \<Rightarrow> AppState \<Rightarrow> HistoryState" where
  "currentSnapshot now s =
     \<lparr>hs_pivotOffsets = pivotOffsets s, hs_props = props s,
      hs_timestamp = now, hs_label = None\<rparr>"

definition saveToHistory :: "nat \<Rightarrow> AppState \<Rightarrow> AppState" where
  "saveToHistory now s =
     s\<lparr>history := slice_last 49 (history s) @ [currentSnapshot now s], redoStack := []\<rparr>"

definition undo :: "nat \<Rightarrow> AppState \<Rightarrow> AppState" where
  "undo now s =
     (if history s = [] \<or> isAnimating s \<or> isTransitioning s then s
      else
        let previous = last (history s);
            current = currentSnapshot now s
        in addLog now ''UNDO: System state reverted.''
             (s\<lparr>redoStack := current # redoStack s,
                history := butlast (history s),
                pivotOffsets := hs_pivotOffsets previous,
                props := hs_props previous\<rparr>))"

definition redo :: "nat \<Rightarrow> AppState \<Rightarrow> AppState" where
  "redo now s =
     (if redoStack s = [] \<or> isAnimating s \<or> isTransitioning s then s
      else
        let next = hd (redoStack s);
            current = currentSnapshot now s
        in addLog now ''REDO: System state reapplied.''
             (s\<lparr>history := history s @ [current],
                redoStack := tl (redoStack s),
                pivotOffsets := hs_pivotOffsets next,
                props := hs_props next\<rparr>))"

section \<open>Chain-reaction propagation\<close>

text \<open>
  \<^verbatim>\<open>JointChainBehaviors\<close>: per joint, an optional record of optional bend (\<^verbatim>\<open>b\<close>),
  stretch (\<^verbatim>\<open>s\<close>) and lead (\<^verbatim>\<open>l\<close>) settings.
\<close>

record ChainBehavior =
  cb_b :: "real option"
  cb_s :: "real option"
  cb_l :: "bool option"

type_synonym JointChainBehaviors = "JointKey \<Rightarrow> ChainBehavior option"

definition JOINT_CHILD_MAP :: "JointKey \<Rightarrow> JointKey option" where
  "JOINT_CHILD_MAP k =
     (case k of
        waist \<Rightarrow> Some torso
      | torso \<Rightarrow> Some collar
      | collar \<Rightarrow> Some neck
      | l_shoulder \<Rightarrow> Some l_elbow
      | l_elbow \<Rightarrow> Some l_hand
      | r_shoulder \<Rightarrow> Some r_elbow
      | r_elbow \<Rightarrow> Some r_hand
      | l_hip \<Rightarrow> Some l_knee
      | l_knee \<Rightarrow> Some l_foot
      | l_foot \<Rightarrow> Some l_toe
      | r_hip \<Rightarrow> Some r_knee
      | r_knee \<Rightarrow> Some r_foot
      | r_foot \<Rightarrow> Some r_toe
      | _ \<Rightarrow> None)"

text \<open>The \<^verbatim>\<open>children\<close> of the joint taken from the queue, with the two hard-coded fan-outs.\<close>

definition childrenOf :: "JointKey \<Rightarrow> JointKey list" where
  "childrenOf currentKey =
     (if currentKey = waist then [torso, l_hip, r_hip]
      else if currentKey = torso then [collar]
      else if currentKey = collar then [neck, l_shoulder, r_shoulder]
      else (case JOINT_CHILD_MAP currentKey of Some c \<Rightarrow> [c] | None \<Rightarrow> []))"

definition totalFactor :: "JointChainBehaviors \<Rightarrow> JointKey \<Rightarrow> real" where
  "totalFactor behaviors childKey =
     (let behavior = (case behaviors childKey of
                        Some x \<Rightarrow> x
                      | None \<Rightarrow> \<lparr>cb_b = None, cb_s = None, cb_l = None\<rparr>);
          bendFactor = (case cb_b behavior of Some x \<Rightarrow> x | None \<Rightarrow> 0);
          stretchFactor = (case cb_s behavior of Some x \<Rightarrow> x | None \<Rightarrow> 0)
      in bendFactor + stretchFactor)"

text \<open>The local variables of \<^verbatim>\<open>applyChainReaction\<close> that its loops update.\<close>

record ChainState =
  cs_queue :: "(JointKey \<times> real) list"
  cs_visited :: "JointKey set"
  cs_newOffsets :: Pose

text \<open>
  The body of the inner \<^verbatim>\<open>for\<close> loop, for one child. A pose is total here, so the
  \<^verbatim>\<open>newOffsets[childKey] || 0\<close> of the source is the stored rotation itself.
\<close>

definition visitChild :: "JointChainBehaviors \<Rightarrow> real \<Rightarrow> ChainState \<Rightarrow> JointKey \<Rightarrow> ChainState" where
  "visitChild behaviors currentDelta st childKey =
     (if childKey \<in> cs_visited st then st
      else if totalFactor behaviors childKey \<noteq> 0 then
        let childDelta = currentDelta * totalFactor behaviors childKey
        in st\<lparr>cs_newOffsets := (cs_newOffsets st)(childKey := cs_newOffsets st childKey + childDelta),
               cs_queue := cs_queue st @ [(childKey, childDelta)],
               cs_visited := insert childKey (cs_visited st)\<rparr>
      else st)"

text \<open>One turn of the \<^verbatim>\<open>while\<close> loop: \<^verbatim>\<open>queue.shift()\<close>, then the children in order.\<close>

definition chainStep :: "JointChainBehaviors \<Rightarrow> ChainState \<Rightarrow> ChainState" where
  "chainStep behaviors st =
     (case cs_queue st of
        [] \<Rightarrow> st
      | (currentKey, currentDelta) # rest \<Rightarrow>
          foldl (visitChild behaviors currentDelta) (st\<lparr>cs_queue := rest\<rparr>) (childrenOf currentKey))"

lemma JointKey_UNIV:
  "(UNIV :: JointKey set) =
     {waist, neck, collar, torso, l_shoulder, r_shoulder, l_elbow, r_elbow, l_hand, r_hand,
      l_hip, r_hip, l_knee, r_knee, l_foot, r_foot, l_toe, r_toe}"
proof -
  have "x \<in> {waist, neck, collar, torso, l_shoulder, r_shoulder, l_elbow, r_elbow, l_hand,
      r_hand, l_hip, r_hip, l_knee, r_knee, l_foot, r_foot, l_toe, r_toe}" for x :: JointKey
    by (cases x) simp_all
  then show ?thesis by blast
qed

lemma finite_JointKey [simp]: "finite (A :: JointKey set)"
proof -
  have "finite (UNIV :: JointKey set)"
    by (subst JointKey_UNIV) simp
  then show ?thesis
    by (rule rev_finite_subset) simp
qed

text \<open>
  The loop ends because every push onto the queue marks a joint that was not yet visited:
  the number of unvisited joints plus the queue length falls by one with each turn.
\<close>

definition chainMeasure :: "ChainState \<Rightarrow> nat" where
  "chainMeasure st = card (- cs_visited st) + length (cs_queue st)"

lemma visitChild_measure: "chainMeasure (visitChild bh d st c) = chainMeasure st"
proof (cases "c \<in> cs_visited st \<or> totalFactor bh c = 0")
  case True
  then show ?thesis by (auto simp: visitChild_def)
next
  case False
  then have c: "c \<in> - cs_visited st" by simp
  then have "card (- cs_visited st) > 0"
    by (metis card_gt_0_iff empty_iff finite_JointKey)
  moreover have "- insert c (cs_visited st) = (- cs_visited st) - {c}" by auto
  then have "card (- insert c (cs_visited st)) = card (- cs_visited st) - 1"
    using c by (simp add: card_Diff_singleton)
  ultimately show ?thesis
    using False by (simp add: visitChild_def chainMeasure_def Let_def)
qed

lemma foldl_visitChild_measure:
  "chainMeasure (foldl (visitChild bh d) st cs) = chainMeasure st"
  by (induction cs arbitrary: st) (simp_all add: visitChild_measure)

lemma chainStep_measure:
  "cs_queue st \<noteq> [] \<Longrightarrow> chainMeasure (chainStep bh st) < chainMeasure st"
  by (cases "cs_queue st")
     (auto simp: chainStep_def foldl_visitChild_measure, simp add: chainMeasure_def)

function chainLoop :: "JointChainBehaviors \<Rightarrow> ChainState \<Rightarrow> ChainState" where
  "chainLoop behaviors st =
     (if cs_queue st = [] then st else chainLoop behaviors (chainStep behaviors st))"
  by pat_completeness auto
termination
  by (relation "measure (\<lambda>(bh, st). chainMeasure st)") (simp_all add: chainStep_measure)

declare chainLoop.simps [simp del]

definition chainStart :: "JointKey \<Rightarrow> real \<Rightarrow> Pose \<Rightarrow> ChainState" where
  "chainStart startingKey delta initialOffsets =
     \<lparr>cs_queue = [(startingKey, delta)], cs_visited = {startingKey},
      cs_newOffsets = initialOffsets\<rparr>"

definition applyChainReaction ::
  "JointChainBehaviors \<Rightarrow> JointKey \<Rightarrow> real \<Rightarrow> Pose \<Rightarrow> Pose" where
  "applyChainReaction behaviors startingKey delta initialOffsets =
     cs_newOffsets (chainLoop behaviors (chainStart startingKey delta initialOffsets))"

text \<open>
  The same call on pose objects held by reference, a reference being an index into the
  list of allocated objects: the object spread \<^verbatim>\<open>{ ...initialOffsets }\<close> allocates a
  new object holding a copy, every assignment of the loop goes to that object, and its
  reference is returned.
\<close>

type_synonym PoseHeap = "Pose list"

definition applyChainReactionRef ::
  "JointChainBehaviors \<Rightarrow> JointKey \<Rightarrow> real \<Rightarrow> nat \<Rightarrow> PoseHeap \<Rightarrow> nat \<times> PoseHeap" where
  "applyChainReactionRef behaviors startingKey delta initialOffsets heap =
     (let newOffsets = length heap;
          heap1 = heap @ [heap ! initialOffsets]
      in (newOffsets,
          heap1[newOffsets := applyChainReaction behaviors startingKey delta (heap1 ! newOffsets)]))"

section \<open>The write trace of a propagation\<close>

text \<open>
  To count the assignments of one call, the loop is run a second time with a log beside
  its state: every assignment \<^verbatim>\<open>newOffsets[childKey] = ...\<close> is logged together with the
  joint and delta then current, and every \<^verbatim>\<open>queue.shift()\<close> with the pair it returned.
  The loop never reads the log, and \<open>chainLoopT_state\<close> shows that the logged run
  computes the state of \<open>chainLoop\<close>.
\<close>

record ChainWrite =
  cw_parent :: JointKey
  cw_parentDelta :: real
  cw_child :: JointKey
  cw_childDelta :: real

record ChainTrace =
  tr_state :: ChainState
  tr_writes :: "ChainWrite list"
  tr_dequeued :: "(JointKey \<times> real) list"

definition visitChildT ::
  "JointChainBehaviors \<Rightarrow> JointKey \<Rightarrow> real \<Rightarrow> ChainTrace \<Rightarrow> JointKey \<Rightarrow> ChainTrace" where
  "visitChildT behaviors currentKey currentDelta t childKey =
     \<lparr>tr_state = visitChild behaviors currentDelta (tr_state t) childKey,
      tr_writes =
        (if childKey \<notin> cs_visited (tr_state t) \<and> totalFactor behaviors childKey \<noteq> 0
         then tr_writes t @
              [\<lparr>cw_parent = currentKey, cw_parentDelta = currentDelta, cw_child = childKey,
                cw_childDelta = currentDelta * totalFactor behaviors childKey\<rparr>]
         else tr_writes t),
      tr_dequeued = tr_dequeued t\<rparr>"

definition chainStepT :: "JointChainBehaviors \<Rightarrow> ChainTrace \<Rightarrow> ChainTrace" where
  "chainStepT behaviors t =
     (case cs_queue (tr_state t) of
        [] \<Rightarrow> t
      | (currentKey, currentDelta) # rest \<Rightarrow>
          foldl (visitChildT behaviors currentKey currentDelta)
            (t\<lparr>tr_state := (tr_state t)\<lparr>cs_queue := rest\<rparr>,
               tr_dequeued := tr_dequeued t @ [(currentKey, currentDelta)]\<rparr>)
            (childrenOf currentKey))"

lemma visitChildT_state [simp]:
  "tr_state (visitChildT bh k d t c) = visitChild bh d (tr_state t) c"
  by (simp add: visitChildT_def)

lemma foldl_visitChildT_state:
  "tr_state (foldl (visitChildT bh k d) t cs) = foldl (visitChild bh d) (tr_state t) cs"
  by (induction cs arbitrary: t) simp_all

lemma chainStepT_state: "tr_state (chainStepT bh t) = chainStep bh (tr_state t)"
  by (cases "cs_queue (tr_state t)")
     (auto simp: chainStepT_def chainStep_def foldl_visitChildT_state)

function chainLoopT :: "JointChainBehaviors \<Rightarrow> ChainTrace \<Rightarrow> ChainTrace" where
  "chainLoopT behaviors t =
     (if cs_queue (tr_state t) = [] then t else chainLoopT behaviors (chainStepT behaviors t))"
  by pat_completeness auto
termination
  by (relation "measure (\<lambda>(bh, t). chainMeasure (tr_state t))")
     (simp_all add: chainStepT_state chainStep_measure)

declare chainLoopT.simps [simp del]

definition traceStart :: "JointKey \<Rightarrow> real \<Rightarrow> Pose \<Rightarrow> ChainTrace" where
  "traceStart startingKey delta initialOffsets =
     \<lparr>tr_state = chainStart startingKey delta initialOffsets,
      tr_writes = [], tr_dequeued = []\<rparr>"

definition chainTrace :: "JointChainBehaviors \<Rightarrow> JointKey \<Rightarrow> real \<Rightarrow> Pose \<Rightarrow> ChainTrace" where
  "chainTrace behaviors startingKey delta initialOffsets =
     chainLoopT behaviors (traceStart startingKey delta initialOffsets)"

section \<open>The joint tree\<close>

text \<open>
  The strict descendants of a joint are the joints reached from it through \<open>childrenOf\<close>.
  \<open>jointDepth\<close> is the distance from the waist; it shows that the children relation has
  no cycle.
\<close>

fun jointDepth :: "JointKey \<Rightarrow> nat" where
  "jointDepth waist = 0"
| "jointDepth torso = 1"
| "jointDepth l_hip = 1"
| "jointDepth r_hip = 1"
| "jointDepth collar = 2"
| "jointDepth l_knee = 2"
| "jointDepth r_knee = 2"
| "jointDepth neck = 3"
| "jointDepth l_shoulder = 3"
| "jointDepth r_shoulder = 3"
| "jointDepth l_foot = 3"
| "jointDepth r_foot = 3"
| "jointDepth l_elbow = 4"
| "jointDepth r_elbow = 4"
| "jointDepth l_toe = 4"
| "jointDepth r_toe = 4"
| "jointDepth l_hand = 5"
| "jointDepth r_hand = 5"

inductive strictDescendant :: "JointKey \<Rightarrow> JointKey \<Rightarrow> bool" where
  child: "c \<in> set (childrenOf p) \<Longrightarrow> strictDescendant p c"
| below: "strictDescendant p c \<Longrightarrow> g \<in> set (childrenOf c) \<Longrightarrow> strictDescendant p g"

code_pred strictDescendant .

section \<open>Timeline\<close>

definition LOOP_DURATION :: real where
  "LOOP_DURATION = 1000"

text \<open>
  Modelled from the spec: the module \<^verbatim>\<open>utils/kinematics\<close> (\<^verbatim>\<open>lerpAngleShortestPath\<close>,
  \<^verbatim>\<open>linear\<close>, \<^verbatim>\<open>easeOutCubic\<close>, \<^verbatim>\<open>easeInOutCubic\<close>) is not among the sources. The
  timeline code takes these functions as a parameter.
\<close>

record Kinematics =
  kin_lerpAngleShortestPath :: "real \<Rightarrow> real \<Rightarrow> real \<Rightarrow> real"
  kin_linear :: "real \<Rightarrow> real"
  kin_easeOutCubic :: "real \<Rightarrow> real"
  kin_easeInOutCubic :: "real \<Rightarrow> real"

text \<open>
  Modelled from the spec: the constant \<^verbatim>\<open>JOINT_KEYS\<close> of \<^verbatim>\<open>constants\<close> is not among the
  sources; every joint is interpolated, so it is taken to list every joint key.
\<close>

definition JOINT_KEYS :: "JointKey list" where
  "JOINT_KEYS =
     [waist, neck, collar, torso, l_shoulder, r_shoulder, l_elbow, r_elbow, l_hand, r_hand,
      l_hip, r_hip, l_knee, r_knee, l_foot, r_foot, l_toe, r_toe]"

definition easingFunctions :: "Kinematics \<Rightarrow> EasingType \<Rightarrow> real \<Rightarrow> real" where
  "easingFunctions K e =
     (case e of Linear \<Rightarrow> kin_linear K | EaseOut \<Rightarrow> kin_easeOutCubic K
      | EaseInOut \<Rightarrow> kin_easeInOutCubic K)"

text \<open>The remainder operator \<^verbatim>\<open>%\<close> on numbers: the quotient is truncated towards zero.\<close>

definition jsRemainder :: "real \<Rightarrow> real \<Rightarrow> real" where
  "jsRemainder a b =
     a - b * of_int (if 0 \<le> a / b then \<lfloor>a / b\<rfloor> else \<lceil>a / b\<rceil>)"


record Segment =
  seg_startKeyframe :: Keyframe
  seg_endPose :: Pose
  seg_startTime :: real
  seg_duration :: real

text \<open>The \<^verbatim>\<open>for\<close> loop over adjacent keyframes; \<open>None\<close> is \<^verbatim>\<open>segmentFound = false\<close>.\<close>

fun findSegment :: "Keyframe list \<Rightarrow> real \<Rightarrow> Segment option" where
  "findSegment (a # b # rest) t =
     (if kf_time a \<le> t \<and> t < kf_time b
      then Some \<lparr>seg_startKeyframe = a, seg_endPose = kf_pose b,
                 seg_startTime = kf_time a, seg_duration = kf_time b - kf_time a\<rparr>
      else findSegment (b # rest) t)"
| "findSegment kfs t = None"

definition resolveSegment :: "Keyframe list \<Rightarrow> real \<Rightarrow> Segment" where
  "resolveSegment kfs t =
     (case findSegment kfs t of
        Some seg \<Rightarrow> seg
      | None \<Rightarrow>
          let lastKeyframe = kfs ! (length kfs - 1)
          in \<lparr>seg_startKeyframe = lastKeyframe, seg_endPose = kf_pose (kfs ! 0),
              seg_startTime = kf_time lastKeyframe, seg_duration = LOOP_DURATION\<rparr>)"

definition segmentProgress :: "real \<Rightarrow> real \<Rightarrow> real \<Rightarrow> real" where
  "segmentProgress t segmentStartTime segmentDuration =
     (let timeIntoSegment = t - segmentStartTime
      in if segmentDuration > 0 then timeIntoSegment / segmentDuration else 1)"

definition interpolatePose :: "Kinematics \<Rightarrow> Pose \<Rightarrow> Pose \<Rightarrow> real \<Rightarrow> Pose" where
  "interpolatePose K startPose endPose p =
     foldl (\<lambda>nextPose k. nextPose(k := kin_lerpAngleShortestPath K (startPose k) (endPose k) p))
       startPose JOINT_KEYS"

text \<open>The pose that one turn of \<^verbatim>\<open>runAnimationLoop\<close> hands to \<^verbatim>\<open>onPoseUpdate\<close>.\<close>

definition loopPose :: "Kinematics \<Rightarrow> Keyframe list \<Rightarrow> real \<Rightarrow> Pose" where
  "loopPose K kfs newTime =
     (let seg = resolveSegment kfs newTime;
          progress = segmentProgress newTime (seg_startTime seg) (seg_duration seg);
          easingType = (case kf_easing (seg_startKeyframe seg) of Some e \<Rightarrow> e | None \<Rightarrow> Linear);
          easedProgress = easingFunctions K easingType progress
      in interpolatePose K (kf_pose (seg_startKeyframe seg)) (seg_endPose seg) easedProgress)"





section \<open>Selection and playback\<close>





section \<open>Keyframe time editing\<close>









section \<open>Two-bone inverse kinematics\<close>



definition toDegrees :: "real \<Rightarrow> real" where
  "toDegrees r = r * 180 / pi"

definition toRadians :: "real \<Rightarrow> real" where
  "toRadians d = d * pi / 180"






section \<open>Example data\<close>

definition zeroPose :: Pose where
  "zeroPose = (\<lambda>k. 0)"

definition unitProps :: Proportions where
  "unitProps = (\<lambda>k. \<lparr>dim_w = 1, dim_h = 1\<rparr>)"

definition historyExample :: AppState where
  "historyExample =
     \<lparr>pivotOffsets = zeroPose(l_elbow := 90), props = unitProps,
      history = [\<lparr>hs_pivotOffsets = zeroPose, hs_props = unitProps,
                  hs_timestamp = 0, hs_label = None\<rparr>],
      redoStack = [], recordingHistory = [], keyframes = [],
      selectedKeyframeIndex = None, isAnimating = False, isTransitioning = False,
      isInteracting = False, animationTime = 0\<rparr>"

text \<open>
  Modelled from the spec: the four functions of \<^verbatim>\<open>utils/kinematics\<close>, for concrete runs.
\<close>

definition lerpAngleShortestPath :: "real \<Rightarrow> real \<Rightarrow> real \<Rightarrow> real" where
  "lerpAngleShortestPath a b t =
     (let d = jsRemainder (b - a) 360;
          diff = (if d > 180 then d - 360 else if d < - 180 then d + 360 else d)
      in a + diff * t)"

definition linear_ease :: "real \<Rightarrow> real" where
  "linear_ease t = t"

definition easeOutCubic :: "real \<Rightarrow> real" where
  "easeOutCubic t = 1 - (1 - t) ^ 3"

definition easeInOutCubic :: "real \<Rightarrow> real" where
  "easeInOutCubic t = (if t < 1 / 2 then 4 * t ^ 3 else 1 - (- 2 * t + 2) ^ 3 / 2)"

definition specKinematics :: Kinematics where
  "specKinematics =
     \<lparr>kin_lerpAngleShortestPath = lerpAngleShortestPath, kin_linear = linear_ease,
      kin_easeOutCubic = easeOutCubic, kin_easeInOutCubic = easeInOutCubic\<rparr>"

definition elbowKeyframe :: "string \<Rightarrow> real \<Rightarrow> real \<Rightarrow> EasingType option \<Rightarrow> Keyframe" where
  "elbowKeyframe i t a e =
     \<lparr>kf_id = i, kf_pose = zeroPose(l_elbow := a), kf_time = t, kf_easing = e\<rparr>"

definition elbowTimeline :: "Keyframe list" where
  "elbowTimeline =
     [elbowKeyframe ''kf-0'' 0 0 None, elbowKeyframe ''kf-1'' 1000 90 None,
      elbowKeyframe ''kf-2'' 2000 0 None]"




definition limbBehaviors :: JointChainBehaviors where
  "limbBehaviors =
     (\<lambda>k. None)
       (l_elbow := Some \<lparr>cb_b = Some 1, cb_s = None, cb_l = None\<rparr>,
        l_hand := Some \<lparr>cb_b = Some 2, cb_s = Some (- 1 / 2), cb_l = None\<rparr>,
        l_knee := Some \<lparr>cb_b = Some 0, cb_s = None, cb_l = Some True\<rparr>,
        l_foot := Some \<lparr>cb_b = Some 1, cb_s = None, cb_l = None\<rparr>)"







section \<open>Undo and redo\<close>

lemma undo_fields:
  assumes "history s \<noteq> []" "\<not> isAnimating s" "\<not> isTransitioning s"
  shows "redoStack (undo t s) = currentSnapshot t s # redoStack s"
    and "isAnimating (undo t s) = isAnimating s"
    and "isTransitioning (undo t s) = isTransitioning s"
  using assms by (simp_all add: undo_def addLog_def Let_def)

lemma redo_of_nonempty:
  assumes "redoStack s = x # xs" "\<not> isAnimating s" "\<not> isTransitioning s"
  shows "pivotOffsets (redo t s) = hs_pivotOffsets x"
    and "props (redo t s) = hs_props x"
    and "redoStack (redo t s) = xs"
  using assms by (simp_all add: redo_def addLog_def Let_def)

lemma redo_empty_noop: "redoStack s = [] \<Longrightarrow> redo t s = s"
  by (simp add: redo_def)

text \<open>
  Claim C4. With a non-empty undo stack and neither playback nor a transition active,
  \<open>undo\<close> followed by \<open>redo\<close> brings back exactly the pose and the proportions held before
  the undo (and the redo stack as it was). Every \<open>saveToHistory\<close> empties the redo stack,
  so after an undo, a save and any new pose and proportions, \<open>redo\<close> changes nothing.
\<close>

theorem undo_redo_restores:
  assumes "history s \<noteq> []" and "\<not> isAnimating s" and "\<not> isTransitioning s"
  shows "pivotOffsets (redo tb (undo ta s)) = pivotOffsets s
       \<and> props (redo tb (undo ta s)) = props s
       \<and> redoStack (redo tb (undo ta s)) = redoStack s
       \<and> redoStack (saveToHistory tc s') = []
       \<and> redo td ((saveToHistory tc (undo ta s))\<lparr>pivotOffsets := p, props := q\<rparr>)
           = (saveToHistory tc (undo ta s))\<lparr>pivotOffsets := p, props := q\<rparr>"
proof -
  note u = undo_fields [OF assms, of ta]
  have na: "\<not> isAnimating (undo ta s)" "\<not> isTransitioning (undo ta s)"
    using assms u by simp_all
  note r = redo_of_nonempty [OF u(1) na, of tb]
  have a: "pivotOffsets (redo tb (undo ta s)) = pivotOffsets s"
    using r(1) by (simp add: currentSnapshot_def)
  have b: "props (redo tb (undo ta s)) = props s"
    using r(2) by (simp add: currentSnapshot_def)
  have c: "redoStack (redo tb (undo ta s)) = redoStack s"
    using r(3) by simp
  have d: "redoStack (saveToHistory tc s') = []"
    by (simp add: saveToHistory_def)
  have e: "redo td ((saveToHistory tc (undo ta s))\<lparr>pivotOffsets := p, props := q\<rparr>)
           = (saveToHistory tc (undo ta s))\<lparr>pivotOffsets := p, props := q\<rparr>"
    by (rule redo_empty_noop) (simp add: saveToHistory_def)
  from a b c d e show ?thesis by blast
qed

theorem undo_redo_restores_witness:
  "history historyExample \<noteq> [] \<and> \<not> isAnimating historyExample
   \<and> \<not> isTransitioning historyExample
   \<and> pivotOffsets (undo 1 historyExample) l_elbow = 0
   \<and> pivotOffsets (redo 2 (undo 1 historyExample)) l_elbow = 90
   \<and> pivotOffsets (redo 2 (undo 1 historyExample)) = pivotOffsets historyExample
   \<and> props (redo 2 (undo 1 historyExample)) = props historyExample
   \<and> redoStack (saveToHistory 3 (undo 1 historyExample)) = []
   \<and> pivotOffsets (redo 4 ((saveToHistory 3 (undo 1 historyExample))
          \<lparr>pivotOffsets := zeroPose(l_knee := 5), props := unitProps\<rparr>)) l_knee = 5"
proof -
  have h: "history historyExample \<noteq> []" "\<not> isAnimating historyExample"
    "\<not> isTransitioning historyExample"
    by (simp_all add: historyExample_def)
  have u: "pivotOffsets (undo 1 historyExample) l_elbow = 0"
    by (simp add: undo_def addLog_def historyExample_def zeroPose_def Let_def)
  note t = undo_redo_restores [OF h, where ta = 1 and tb = 2 and tc = 3 and td = 4
      and s' = "undo 1 historyExample" and p = "zeroPose(l_knee := 5)" and q = unitProps]
  have e: "pivotOffsets historyExample l_elbow = 90"
    by (simp add: historyExample_def)
  from h u t e show ?thesis by simp
qed

section \<open>Invariants of the propagation loop\<close>

text \<open>The logged run computes the state of the loop, and ends with an empty queue.\<close>

lemma visitChildT_dequeued [simp]:
  "tr_dequeued (visitChildT bh k d t c) = tr_dequeued t"
  by (simp add: visitChildT_def)

lemma foldl_visitChildT_dequeued:
  "tr_dequeued (foldl (visitChildT bh k d) t cs) = tr_dequeued t"
  by (induction cs arbitrary: t) simp_all

lemma chainLoopT_state: "tr_state (chainLoopT bh t) = chainLoop bh (tr_state t)"
proof (induction bh t rule: chainLoopT.induct)
  case (1 bh t)
  show ?case
  proof (cases "cs_queue (tr_state t) = []")
    case True
    then show ?thesis
      by (simp add: chainLoopT.simps [of bh t] chainLoop.simps [of bh "tr_state t"])
  next
    case False
    with 1 show ?thesis
      by (simp add: chainLoopT.simps [of bh t] chainLoop.simps [of bh "tr_state t"]
          chainStepT_state)
  qed
qed

lemma chainLoopT_queue: "cs_queue (tr_state (chainLoopT bh t)) = []"
proof (induction bh t rule: chainLoopT.induct)
  case (1 bh t)
  then show ?case
    by (cases "cs_queue (tr_state t) = []") (simp_all add: chainLoopT.simps [of bh t])
qed

lemma chainTrace_result:
  "cs_newOffsets (tr_state (chainTrace bh k d p)) = applyChainReaction bh k d p"
  by (simp add: chainTrace_def traceStart_def chainLoopT_state applyChainReaction_def)

text \<open>Every joint has one parent, and a child lies one level below its parent.\<close>

lemma childrenOf_depth:
  "c \<in> set (childrenOf p) \<Longrightarrow> jointDepth c = Suc (jointDepth p)"
  by (cases p) (auto simp: childrenOf_def JOINT_CHILD_MAP_def)

lemma childrenOf_parent_unique:
  "c \<in> set (childrenOf p) \<Longrightarrow> c \<in> set (childrenOf q) \<Longrightarrow> p = q"
  by (cases p; cases q) (auto simp: childrenOf_def JOINT_CHILD_MAP_def)

lemma strictDescendant_depth: "strictDescendant p c \<Longrightarrow> jointDepth p < jointDepth c"
  by (induction rule: strictDescendant.induct) (auto dest: childrenOf_depth)

lemma strictDescendant_irrefl: "\<not> strictDescendant k k"
  using strictDescendant_depth by fastforce

lemma strictDescendant_asym: "strictDescendant a b \<Longrightarrow> \<not> strictDescendant b a"
  using strictDescendant_depth [of a b] strictDescendant_depth [of b a] by auto

text \<open>
  The invariant of the logged run: the visited set is the start joint with the joints
  assigned so far; no joint is assigned twice; an assigned joint holds its base rotation
  plus its logged delta and any other joint its base rotation; the pairs taken from the
  queue followed by the queue are the start pair followed by the assignments in order;
  every assignment is to a child of the joint then current, with a non-zero total factor
  and the delta multiplied by it, and to a strict descendant of the start joint.
\<close>

definition chainInv ::
  "JointChainBehaviors \<Rightarrow> JointKey \<Rightarrow> real \<Rightarrow> Pose \<Rightarrow> ChainTrace \<Rightarrow> bool" where
  "chainInv bh start delta base t \<longleftrightarrow>
     cs_visited (tr_state t) = insert start (cw_child ` set (tr_writes t))
   \<and> distinct (map cw_child (tr_writes t))
   \<and> start \<notin> cw_child ` set (tr_writes t)
   \<and> (\<forall>e\<in>set (tr_writes t).
        cs_newOffsets (tr_state t) (cw_child e) = base (cw_child e) + cw_childDelta e)
   \<and> (\<forall>j. j \<notin> cw_child ` set (tr_writes t) \<longrightarrow> cs_newOffsets (tr_state t) j = base j)
   \<and> tr_dequeued t @ cs_queue (tr_state t)
        = (start, delta) # map (\<lambda>e. (cw_child e, cw_childDelta e)) (tr_writes t)
   \<and> (\<forall>e\<in>set (tr_writes t).
        cw_child e \<in> set (childrenOf (cw_parent e))
      \<and> totalFactor bh (cw_child e) \<noteq> 0
      \<and> cw_childDelta e = cw_parentDelta e * totalFactor bh (cw_child e)
      \<and> (cw_parent e, cw_parentDelta e) \<in> set (tr_dequeued t)
      \<and> strictDescendant start (cw_child e))"

lemma chainInv_dequeued_origin:
  assumes "chainInv bh start delta base t" and "(k, d) \<in> set (tr_dequeued t)"
  shows "k = start \<or> strictDescendant start k"
proof -
  from assms(1) have eq: "tr_dequeued t @ cs_queue (tr_state t)
      = (start, delta) # map (\<lambda>e. (cw_child e, cw_childDelta e)) (tr_writes t)"
    by (simp add: chainInv_def)
  have "(k, d) \<in> set (tr_dequeued t @ cs_queue (tr_state t))"
    using assms(2) by simp
  then have "(k, d) \<in> set ((start, delta) # map (\<lambda>e. (cw_child e, cw_childDelta e)) (tr_writes t))"
    unfolding eq .
  then have "k = start \<or> k \<in> cw_child ` set (tr_writes t)"
    by auto
  moreover from assms(1) have "\<forall>e\<in>set (tr_writes t). strictDescendant start (cw_child e)"
    by (simp add: chainInv_def)
  ultimately show ?thesis by auto
qed

lemma chainInv_visitChildT:
  assumes inv: "chainInv bh start delta base t"
    and deq: "(k, d) \<in> set (tr_dequeued t)"
    and ch: "c \<in> set (childrenOf k)"
  shows "chainInv bh start delta base (visitChildT bh k d t c)"
proof (cases "c \<in> cs_visited (tr_state t) \<or> totalFactor bh c = 0")
  case True
  then show ?thesis
    using inv by (auto simp: chainInv_def visitChildT_def visitChild_def)
next
  case False
  then have nv: "c \<notin> cs_visited (tr_state t)" and tf: "totalFactor bh c \<noteq> 0"
    by simp_all
  from nv inv have cs: "c \<noteq> start" and cw: "c \<notin> cw_child ` set (tr_writes t)"
    by (auto simp: chainInv_def)
  from inv cw have base: "cs_newOffsets (tr_state t) c = base c"
    by (simp add: chainInv_def)
  have desc: "strictDescendant start c"
    using chainInv_dequeued_origin [OF inv deq] ch
    by (auto intro: strictDescendant.intros)
  show ?thesis
    unfolding chainInv_def
    using inv nv tf cs cw base desc deq ch
    apply (simp add: visitChildT_def visitChild_def Let_def chainInv_def)
    apply (intro conjI)
    apply auto
    done
qed

lemma chainInv_foldl:
  assumes "chainInv bh start delta base t" and "(k, d) \<in> set (tr_dequeued t)"
    and "set cs \<subseteq> set (childrenOf k)"
  shows "chainInv bh start delta base (foldl (visitChildT bh k d) t cs)"
  using assms
proof (induction cs arbitrary: t)
  case Nil
  then show ?case by simp
next
  case (Cons c cs)
  from Cons.prems have "chainInv bh start delta base (visitChildT bh k d t c)"
    by (intro chainInv_visitChildT) simp_all
  moreover have "(k, d) \<in> set (tr_dequeued (visitChildT bh k d t c))"
    using Cons.prems(2) by simp
  ultimately show ?case
    using Cons.IH Cons.prems(3) by simp
qed

lemma chainInv_dequeue:
  assumes "chainInv bh start delta base t" and "cs_queue (tr_state t) = (k, d) # rest"
  shows "chainInv bh start delta base
           (t\<lparr>tr_state := (tr_state t)\<lparr>cs_queue := rest\<rparr>,
              tr_dequeued := tr_dequeued t @ [(k, d)]\<rparr>)"
  using assms by (auto simp: chainInv_def)

lemma chainInv_chainStepT:
  assumes "chainInv bh start delta base t"
  shows "chainInv bh start delta base (chainStepT bh t)"
proof (cases "cs_queue (tr_state t)")
  case Nil
  then show ?thesis using assms by (simp add: chainStepT_def)
next
  case (Cons kd rest)
  obtain k d where kd: "kd = (k, d)" by (cases kd)
  let ?t1 = "t\<lparr>tr_state := (tr_state t)\<lparr>cs_queue := rest\<rparr>,
               tr_dequeued := tr_dequeued t @ [(k, d)]\<rparr>"
  have "chainInv bh start delta base ?t1"
    using assms Cons kd by (intro chainInv_dequeue) simp_all
  then have "chainInv bh start delta base (foldl (visitChildT bh k d) ?t1 (childrenOf k))"
    by (rule chainInv_foldl) simp_all
  then show ?thesis
    using Cons kd by (simp add: chainStepT_def)
qed

lemma chainInv_chainLoopT:
  "chainInv bh start delta base t \<Longrightarrow> chainInv bh start delta base (chainLoopT bh t)"
proof (induction bh t rule: chainLoopT.induct)
  case (1 bh t)
  show ?case
  proof (cases "cs_queue (tr_state t) = []")
    case True
    then show ?thesis using 1 by (simp add: chainLoopT.simps [of bh t])
  next
    case False
    then show ?thesis
      using 1 by (simp add: chainLoopT.simps [of bh t] chainInv_chainStepT)
  qed
qed

lemma chainInv_traceStart: "chainInv bh start delta base (traceStart start delta base)"
  by (simp add: chainInv_def traceStart_def chainStart_def)

lemma chainInv_chainTrace: "chainInv bh start delta base (chainTrace bh start delta base)"
  unfolding chainTrace_def by (rule chainInv_chainLoopT) (rule chainInv_traceStart)

lemma chainTrace_queue: "cs_queue (tr_state (chainTrace bh start delta base)) = []"
  by (simp add: chainTrace_def chainLoopT_queue)

text \<open>
  Nothing is skipped: once a joint has been taken from the queue, each of its children with
  a non-zero total factor has been assigned from it. A child that was found visited had
  been assigned from this same parent: it has no other parent, and it is not the start
  joint, which is not a descendant of itself.
\<close>

definition chainDone :: "JointChainBehaviors \<Rightarrow> ChainTrace \<Rightarrow> (JointKey \<times> real) \<Rightarrow> JointKey \<Rightarrow> bool" where
  "chainDone bh t kd c \<longleftrightarrow>
     (totalFactor bh c \<noteq> 0 \<longrightarrow>
        \<lparr>cw_parent = fst kd, cw_parentDelta = snd kd, cw_child = c,
         cw_childDelta = snd kd * totalFactor bh c\<rparr> \<in> set (tr_writes t))"

lemma visitChildT_writes_mono: "set (tr_writes t) \<subseteq> set (tr_writes (visitChildT bh k d t c))"
  by (auto simp: visitChildT_def)

lemma foldl_visitChildT_writes_mono:
  "set (tr_writes t) \<subseteq> set (tr_writes (foldl (visitChildT bh k d) t cs))"
proof (induction cs arbitrary: t)
  case Nil
  show ?case by simp
next
  case (Cons c cs)
  have "set (tr_writes t) \<subseteq> set (tr_writes (visitChildT bh k d t c))"
    by (rule visitChildT_writes_mono)
  also have "\<dots> \<subseteq> set (tr_writes (foldl (visitChildT bh k d) (visitChildT bh k d t c) cs))"
    by (rule Cons.IH)
  finally show ?case by simp
qed

lemma chainInv_dequeued_distinct:
  assumes "chainInv bh start delta base t"
  shows "distinct (map fst (tr_dequeued t))"
proof -
  from assms have eq: "tr_dequeued t @ cs_queue (tr_state t)
      = (start, delta) # map (\<lambda>e. (cw_child e, cw_childDelta e)) (tr_writes t)"
    by (simp add: chainInv_def)
  have "map fst (tr_dequeued t @ cs_queue (tr_state t)) = start # map cw_child (tr_writes t)"
    unfolding eq by (simp add: comp_def)
  moreover from assms have "distinct (start # map cw_child (tr_writes t))"
    by (simp add: chainInv_def)
  ultimately have "distinct (map fst (tr_dequeued t @ cs_queue (tr_state t)))"
    by simp
  then show ?thesis by simp
qed

lemma chainDone_visitChildT:
  assumes inv: "chainInv bh start delta base t"
    and deq: "(k, d) \<in> set (tr_dequeued t)"
    and ch: "c \<in> set (childrenOf k)"
  shows "chainDone bh (visitChildT bh k d t c) (k, d) c"
proof (cases "totalFactor bh c = 0")
  case True
  then show ?thesis by (simp add: chainDone_def)
next
  case tf: False
  show ?thesis
  proof (cases "c \<in> cs_visited (tr_state t)")
    case False
    with tf show ?thesis by (simp add: chainDone_def visitChildT_def)
  next
    case True
    have "c \<noteq> start"
    proof
      assume "c = start"
      with ch have "strictDescendant k start" by (auto intro: strictDescendant.child)
      moreover have "k = start \<or> strictDescendant start k"
        by (rule chainInv_dequeued_origin [OF inv deq])
      ultimately show False
        using strictDescendant_depth [of k start] strictDescendant_depth [of start k]
        by auto
    qed
    with True inv obtain e where e: "e \<in> set (tr_writes t)" "cw_child e = c"
      by (auto simp: chainInv_def)
    with inv have ep: "c \<in> set (childrenOf (cw_parent e))"
      "cw_childDelta e = cw_parentDelta e * totalFactor bh c"
      "(cw_parent e, cw_parentDelta e) \<in> set (tr_dequeued t)"
      by (auto simp: chainInv_def)
    from ep(1) ch have pk: "cw_parent e = k"
      by (rule childrenOf_parent_unique)
    have "cw_parentDelta e = d"
      using chainInv_dequeued_distinct [OF inv] ep(3) deq pk
      by (metis eq_key_imp_eq_value)
    with pk ep(2) e have "e = \<lparr>cw_parent = k, cw_parentDelta = d, cw_child = c,
         cw_childDelta = d * totalFactor bh c\<rparr>"
      by simp
    with e(1) show ?thesis
      using visitChildT_writes_mono [of t bh k d c] by (auto simp: chainDone_def)
  qed
qed

lemma chainDone_mono:
  "chainDone bh t kd c \<Longrightarrow> set (tr_writes t) \<subseteq> set (tr_writes t') \<Longrightarrow> chainDone bh t' kd c"
  by (auto simp: chainDone_def)

lemma chainDone_foldl:
  assumes "chainInv bh start delta base t" and "(k, d) \<in> set (tr_dequeued t)"
    and "set cs \<subseteq> set (childrenOf k)"
  shows "\<forall>c\<in>set cs. chainDone bh (foldl (visitChildT bh k d) t cs) (k, d) c"
  using assms
proof (induction cs arbitrary: t)
  case Nil
  show ?case by simp
next
  case (Cons c cs)
  let ?t1 = "visitChildT bh k d t c"
  from Cons.prems have inv1: "chainInv bh start delta base ?t1"
    by (intro chainInv_visitChildT) simp_all
  have deq1: "(k, d) \<in> set (tr_dequeued ?t1)"
    using Cons.prems(2) by simp
  have "chainDone bh ?t1 (k, d) c"
    using Cons.prems by (intro chainDone_visitChildT) simp_all
  then have "chainDone bh (foldl (visitChildT bh k d) ?t1 cs) (k, d) c"
    by (rule chainDone_mono) (rule foldl_visitChildT_writes_mono)
  moreover have "\<forall>c'\<in>set cs. chainDone bh (foldl (visitChildT bh k d) ?t1 cs) (k, d) c'"
    using Cons.IH [OF inv1 deq1] Cons.prems(3) by simp
  ultimately show ?case by simp
qed

definition chainComplete :: "JointChainBehaviors \<Rightarrow> ChainTrace \<Rightarrow> bool" where
  "chainComplete bh t \<longleftrightarrow>
     (\<forall>kd\<in>set (tr_dequeued t). \<forall>c\<in>set (childrenOf (fst kd)). chainDone bh t kd c)"

lemma chainComplete_chainStepT:
  assumes inv: "chainInv bh start delta base t" and co: "chainComplete bh t"
  shows "chainComplete bh (chainStepT bh t)"
proof (cases "cs_queue (tr_state t)")
  case Nil
  then show ?thesis using co by (simp add: chainStepT_def)
next
  case (Cons kd rest)
  obtain k d where kd: "kd = (k, d)" by (cases kd)
  let ?t1 = "t\<lparr>tr_state := (tr_state t)\<lparr>cs_queue := rest\<rparr>,
               tr_dequeued := tr_dequeued t @ [(k, d)]\<rparr>"
  let ?t2 = "foldl (visitChildT bh k d) ?t1 (childrenOf k)"
  have t2: "chainStepT bh t = ?t2"
    using Cons kd by (simp add: chainStepT_def)
  have inv1: "chainInv bh start delta base ?t1"
    using inv Cons kd by (intro chainInv_dequeue) simp_all
  have new: "\<forall>c\<in>set (childrenOf k). chainDone bh ?t2 (k, d) c"
    using inv1 by (rule chainDone_foldl) simp_all
  have mono: "set (tr_writes t) \<subseteq> set (tr_writes ?t2)"
    using foldl_visitChildT_writes_mono [of ?t1 bh k d "childrenOf k"] by simp
  have old: "\<forall>kd'\<in>set (tr_dequeued t). \<forall>c\<in>set (childrenOf (fst kd')). chainDone bh ?t2 kd' c"
    using co mono unfolding chainComplete_def by (blast intro: chainDone_mono)
  have deq2: "tr_dequeued ?t2 = tr_dequeued t @ [(k, d)]"
    by (simp add: foldl_visitChildT_dequeued)
  show ?thesis
    unfolding t2 chainComplete_def deq2 using new old by auto
qed

lemma chainComplete_chainLoopT:
  "chainInv bh start delta base t \<Longrightarrow> chainComplete bh t \<Longrightarrow> chainComplete bh (chainLoopT bh t)"
proof (induction bh t rule: chainLoopT.induct)
  case (1 bh t)
  show ?case
  proof (cases "cs_queue (tr_state t) = []")
    case True
    then show ?thesis using 1 by (simp add: chainLoopT.simps [of bh t])
  next
    case False
    then show ?thesis
      using 1 by (simp add: chainLoopT.simps [of bh t] chainInv_chainStepT
          chainComplete_chainStepT)
  qed
qed

lemma chainComplete_chainTrace: "chainComplete bh (chainTrace bh start delta base)"
  unfolding chainTrace_def
  by (rule chainComplete_chainLoopT [OF chainInv_traceStart])
     (simp add: chainComplete_def traceStart_def)

lemma chainLoop_iterations:
  "\<exists>n\<le>chainMeasure st. cs_queue ((chainStep bh ^^ n) st) = []
      \<and> chainLoop bh st = (chainStep bh ^^ n) st"
proof (induction bh st rule: chainLoop.induct)
  case (1 bh st)
  show ?case
  proof (cases "cs_queue st = []")
    case True
    then have "cs_queue ((chainStep bh ^^ 0) st) = [] \<and> chainLoop bh st = (chainStep bh ^^ 0) st"
      by (simp add: chainLoop.simps [of bh st])
    then show ?thesis by blast
  next
    case False
    from 1 [OF False] obtain n where n: "n \<le> chainMeasure (chainStep bh st)"
      "cs_queue ((chainStep bh ^^ n) (chainStep bh st)) = []"
      "chainLoop bh (chainStep bh st) = (chainStep bh ^^ n) (chainStep bh st)"
      by blast
    have "Suc n \<le> chainMeasure st"
      using n(1) chainStep_measure [OF False, of bh] by simp
    moreover have "cs_queue ((chainStep bh ^^ Suc n) st) = []"
      using n(2) by (simp add: funpow_swap1)
    moreover have "chainLoop bh st = (chainStep bh ^^ Suc n) st"
      using n(3) False by (simp add: chainLoop.simps [of bh st] funpow_swap1)
    ultimately show ?thesis by blast
  qed
qed

lemma card_Compl_singleton_JointKey: "card (- {k :: JointKey}) = 17"
proof -
  have "card (UNIV :: JointKey set) = 18"
    by (subst JointKey_UNIV) simp
  moreover have "card (UNIV - {k}) = card (UNIV :: JointKey set) - 1"
    by (simp add: card_Diff_singleton)
  ultimately show ?thesis
    by (simp add: Compl_eq_Diff_UNIV)
qed

lemma chainMeasure_chainStart: "chainMeasure (chainStart k d p) = 18"
  by (simp add: chainMeasure_def chainStart_def card_Compl_singleton_JointKey)

text \<open>What the invariants say about a finished call.\<close>

lemma chainTrace_dequeued:
  "tr_dequeued (chainTrace bh start delta base)
     = (start, delta) # map (\<lambda>e. (cw_child e, cw_childDelta e))
         (tr_writes (chainTrace bh start delta base))"
  using chainInv_chainTrace [of bh start delta base] chainTrace_queue [of bh start delta base]
  by (simp add: chainInv_def)

lemma chainTrace_written:
  assumes "e \<in> set (tr_writes (chainTrace bh start delta base))"
  shows "applyChainReaction bh start delta base (cw_child e) = base (cw_child e) + cw_childDelta e"
    and "totalFactor bh (cw_child e) \<noteq> 0"
    and "strictDescendant start (cw_child e)"
    and "cw_child e \<in> set (childrenOf (cw_parent e))"
    and "cw_parent e = start \<or> cw_parent e \<in> cw_child ` set (tr_writes (chainTrace bh start delta base))"
proof -
  note inv = chainInv_chainTrace [of bh start delta base]
  show "applyChainReaction bh start delta base (cw_child e) = base (cw_child e) + cw_childDelta e"
    using inv assms by (simp add: chainInv_def flip: chainTrace_result)
  show "totalFactor bh (cw_child e) \<noteq> 0" "strictDescendant start (cw_child e)"
    "cw_child e \<in> set (childrenOf (cw_parent e))"
    using inv assms by (simp_all add: chainInv_def)
  from inv assms have "(cw_parent e, cw_parentDelta e) \<in> set (tr_dequeued (chainTrace bh start delta base))"
    by (simp add: chainInv_def)
  then show "cw_parent e = start \<or> cw_parent e \<in> cw_child ` set (tr_writes (chainTrace bh start delta base))"
    unfolding chainTrace_dequeued by auto
qed

lemma chainTrace_unwritten:
  assumes "j \<notin> cw_child ` set (tr_writes (chainTrace bh start delta base))"
  shows "applyChainReaction bh start delta base j = base j"
  using chainInv_chainTrace [of bh start delta base] assms
  by (simp add: chainInv_def flip: chainTrace_result)

lemma chainTrace_distinct:
  "distinct (map cw_child (tr_writes (chainTrace bh start delta base)))"
  "start \<notin> cw_child ` set (tr_writes (chainTrace bh start delta base))"
  using chainInv_chainTrace [of bh start delta base] by (simp_all add: chainInv_def)

lemma distinct_filter_le_one:
  "distinct (map f xs) \<Longrightarrow> length (filter (\<lambda>e. f e = j) xs) \<le> 1"
proof (induction xs)
  case Nil
  show ?case by simp
next
  case (Cons x xs)
  show ?case
  proof (cases "f x = j")
    case True
    with Cons.prems have "filter (\<lambda>e. f e = j) xs = []"
      by (auto simp: filter_empty_conv image_iff)
    with True show ?thesis by simp
  next
    case False
    with Cons show ?thesis by simp
  qed
qed

lemma sum_filter_single:
  assumes "distinct (map f xs)" and "e \<in> set xs"
  shows "sum_list (map g (filter (\<lambda>x. f x = f e) xs)) = g e"
  using assms
proof (induction xs)
  case Nil
  then show ?case by simp
next
  case (Cons x xs)
  show ?case
  proof (cases "x = e")
    case True
    with Cons.prems have "filter (\<lambda>x. f x = f e) xs = []"
      by (auto simp: filter_empty_conv image_iff)
    with True show ?thesis by simp
  next
    case False
    with Cons.prems have "e \<in> set xs" "f x \<noteq> f e" by auto
    with Cons show ?thesis by simp
  qed
qed

lemma chainTrace_sum:
  "applyChainReaction bh start delta base j
     = base j + sum_list (map cw_childDelta
         (filter (\<lambda>e. cw_child e = j) (tr_writes (chainTrace bh start delta base))))"
proof (cases "j \<in> cw_child ` set (tr_writes (chainTrace bh start delta base))")
  case False
  then have "filter (\<lambda>e. cw_child e = j) (tr_writes (chainTrace bh start delta base)) = []"
    by (auto simp: filter_empty_conv)
  with chainTrace_unwritten [OF False] show ?thesis by simp
next
  case True
  then obtain e where e: "e \<in> set (tr_writes (chainTrace bh start delta base))" "cw_child e = j"
    by auto
  from sum_filter_single [OF chainTrace_distinct(1) e(1), of cw_childDelta] chainTrace_written(1) [OF e(1)] e(2)
  show ?thesis by simp
qed

lemma written_above:
  assumes z: "strictDescendant start z"
    and zj: "strictDescendant z j"
    and j: "j \<in> cw_child ` set (tr_writes (chainTrace bh start delta base))"
  shows "z \<in> cw_child ` set (tr_writes (chainTrace bh start delta base))"
  using zj z j
proof (induction rule: strictDescendant.induct)
  case (child c p)
  from child(3) obtain e where e: "e \<in> set (tr_writes (chainTrace bh start delta base))"
    "cw_child e = c" by auto
  from chainTrace_written(4) [OF e(1)] e(2) child(1) have "cw_parent e = p"
    by (auto dest: childrenOf_parent_unique)
  with chainTrace_written(5) [OF e(1)]
  have "p = start \<or> p \<in> cw_child ` set (tr_writes (chainTrace bh start delta base))"
    by simp
  moreover have "p \<noteq> start"
    using child(2) strictDescendant_irrefl by auto
  ultimately show ?case by simp
next
  case (below p c g)
  from below(5) obtain e where e: "e \<in> set (tr_writes (chainTrace bh start delta base))"
    "cw_child e = g" by auto
  from chainTrace_written(4) [OF e(1)] e(2) below(2) have "cw_parent e = c"
    by (auto dest: childrenOf_parent_unique)
  with chainTrace_written(5) [OF e(1)]
  have "c = start \<or> c \<in> cw_child ` set (tr_writes (chainTrace bh start delta base))"
    by simp
  moreover have "c \<noteq> start"
    using below(1,4) strictDescendant_asym by auto
  ultimately show ?case using below.IH below(4) by simp
qed

lemma applyChainReactionRef_frame:
  assumes "r < length heap"
  shows "fst (applyChainReactionRef bh k d r heap) \<noteq> r"
    and "\<forall>a<length heap. snd (applyChainReactionRef bh k d r heap) ! a = heap ! a"
    and "snd (applyChainReactionRef bh k d r heap) ! fst (applyChainReactionRef bh k d r heap)
          = applyChainReaction bh k d (heap ! r)"
  using assms by (auto simp: applyChainReactionRef_def Let_def nth_append)

section \<open>Propagation: termination, deltas, decoupling and frame\<close>

lemmas chain_eval =
  chainTrace_def traceStart_def chainLoopT.simps chainStepT_def visitChildT_def
  applyChainReaction_def chainStart_def chainLoop.simps chainStep_def visitChild_def
  childrenOf_def JOINT_CHILD_MAP_def totalFactor_def Let_def

text \<open>
  Claim C7. Every call of \<open>applyChainReaction\<close> ends: from the start state, whose visited
  set holds the start joint, the \<^verbatim>\<open>while\<close> loop empties the queue within 18 turns, for
  every behaviour configuration, and the pose returned is the one then held. In the log of
  the call no joint is assigned twice and the start joint is never assigned; each joint's
  returned rotation is its base rotation plus the deltas logged for it, of which there is
  at most one.
\<close>

theorem chain_terminates_one_delta:
  "(\<exists>n\<le>18. cs_queue ((chainStep bh ^^ n) (chainStart start delta base)) = []
        \<and> applyChainReaction bh start delta base
             = cs_newOffsets ((chainStep bh ^^ n) (chainStart start delta base)))
   \<and> distinct (map cw_child (tr_writes (chainTrace bh start delta base)))
   \<and> start \<notin> cw_child ` set (tr_writes (chainTrace bh start delta base))
   \<and> (\<forall>j. length (filter (\<lambda>e. cw_child e = j) (tr_writes (chainTrace bh start delta base))) \<le> 1)
   \<and> (\<forall>j. applyChainReaction bh start delta base j
          = base j + sum_list (map cw_childDelta
              (filter (\<lambda>e. cw_child e = j) (tr_writes (chainTrace bh start delta base)))))"
proof -
  from chainLoop_iterations [of "chainStart start delta base" bh]
  obtain n where "n \<le> 18" "cs_queue ((chainStep bh ^^ n) (chainStart start delta base)) = []"
    "chainLoop bh (chainStart start delta base) = (chainStep bh ^^ n) (chainStart start delta base)"
    unfolding chainMeasure_chainStart by blast
  then have a: "\<exists>n\<le>18. cs_queue ((chainStep bh ^^ n) (chainStart start delta base)) = []
        \<and> applyChainReaction bh start delta base
             = cs_newOffsets ((chainStep bh ^^ n) (chainStart start delta base))"
    unfolding applyChainReaction_def by metis
  have b: "\<forall>j. length (filter (\<lambda>e. cw_child e = j) (tr_writes (chainTrace bh start delta base))) \<le> 1"
    using distinct_filter_le_one [OF chainTrace_distinct(1)] by blast
  from a b chainTrace_distinct(1) [of bh start delta base]
    chainTrace_distinct(2) [of start bh delta base] chainTrace_sum [of bh start delta base]
  show ?thesis by blast
qed

theorem chain_terminates_one_delta_witness:
  "map cw_child (tr_writes (chainTrace limbBehaviors l_shoulder 10 zeroPose)) = [l_elbow, l_hand]
   \<and> distinct (map cw_child (tr_writes (chainTrace limbBehaviors l_shoulder 10 zeroPose)))
   \<and> applyChainReaction limbBehaviors l_shoulder 10 zeroPose l_hand = 15
   \<and> (\<exists>n\<le>18. cs_queue ((chainStep limbBehaviors ^^ n) (chainStart l_shoulder 10 zeroPose)) = [])"
proof -
  have w: "map cw_child (tr_writes (chainTrace limbBehaviors l_shoulder 10 zeroPose)) = [l_elbow, l_hand]"
    by (simp add: chain_eval limbBehaviors_def zeroPose_def)
  have r: "applyChainReaction limbBehaviors l_shoulder 10 zeroPose l_hand = 15"
    by (simp add: chain_eval limbBehaviors_def zeroPose_def)
  from w r chain_terminates_one_delta [of limbBehaviors l_shoulder 10 zeroPose]
  show ?thesis by blast
qed

text \<open>
  Claim C5. The first pair taken from the queue is the start joint with the given delta.
  For every pair (parent, parentDelta) taken from the queue during the call and every child
  of that parent whose total factor (bend plus stretch, each 0 when unset) is not zero, the
  returned pose holds for the child its base rotation plus parentDelta times the total
  factor, and the child is itself taken from the queue with the delta parentDelta times the
  total factor, so that its own children are visited with it.
\<close>

theorem chain_child_delta:
  "take 1 (tr_dequeued (chainTrace bh start delta base)) = [(start, delta)]
   \<and> (\<forall>kd\<in>set (tr_dequeued (chainTrace bh start delta base)).
        \<forall>c\<in>set (childrenOf (fst kd)).
          totalFactor bh c \<noteq> 0 \<longrightarrow>
            applyChainReaction bh start delta base c = base c + snd kd * totalFactor bh c
          \<and> (c, snd kd * totalFactor bh c) \<in> set (tr_dequeued (chainTrace bh start delta base)))"
proof (intro conjI ballI impI)
  show "take 1 (tr_dequeued (chainTrace bh start delta base)) = [(start, delta)]"
    by (simp add: chainTrace_dequeued)
next
  fix kd c
  assume kd: "kd \<in> set (tr_dequeued (chainTrace bh start delta base))"
    and c: "c \<in> set (childrenOf (fst kd))" and tf: "totalFactor bh c \<noteq> 0"
  let ?e = "\<lparr>cw_parent = fst kd, cw_parentDelta = snd kd, cw_child = c,
         cw_childDelta = snd kd * totalFactor bh c\<rparr>"
  from chainComplete_chainTrace [of bh start delta base] kd c tf
  have e: "?e \<in> set (tr_writes (chainTrace bh start delta base))"
    by (auto simp: chainComplete_def chainDone_def)
  from chainTrace_written(1) [OF e]
  show "applyChainReaction bh start delta base c = base c + snd kd * totalFactor bh c"
    by simp
  from e have "(cw_child ?e, cw_childDelta ?e) \<in> set (tr_dequeued (chainTrace bh start delta base))"
    unfolding chainTrace_dequeued by (metis (no_types, lifting) image_eqI list.set_intros(2) set_map)
  then show "(c, snd kd * totalFactor bh c) \<in> set (tr_dequeued (chainTrace bh start delta base))"
    by simp
qed

theorem chain_child_delta_witness:
  "(l_shoulder, 10) \<in> set (tr_dequeued (chainTrace limbBehaviors l_shoulder 10 zeroPose))
   \<and> l_elbow \<in> set (childrenOf l_shoulder)
   \<and> totalFactor limbBehaviors l_elbow = 1
   \<and> applyChainReaction limbBehaviors l_shoulder 10 zeroPose l_elbow = 10
   \<and> (l_elbow, 10) \<in> set (tr_dequeued (chainTrace limbBehaviors l_shoulder 10 zeroPose))
   \<and> l_hand \<in> set (childrenOf l_elbow)
   \<and> totalFactor limbBehaviors l_hand = 3 / 2
   \<and> applyChainReaction limbBehaviors l_shoulder 10 zeroPose l_hand = 15
   \<and> (l_hand, 15) \<in> set (tr_dequeued (chainTrace limbBehaviors l_shoulder 10 zeroPose))"
proof -
  let ?D = "tr_dequeued (chainTrace limbBehaviors l_shoulder 10 zeroPose)"
  note t = chain_child_delta [of limbBehaviors l_shoulder 10 zeroPose]
  have d: "?D = [(l_shoulder, 10), (l_elbow, 10), (l_hand, 15)]"
    by (simp add: chain_eval limbBehaviors_def zeroPose_def)
  have a: "(l_shoulder, 10) \<in> set ?D" unfolding d by simp
  have c1: "l_elbow \<in> set (childrenOf l_shoulder)" "l_hand \<in> set (childrenOf l_elbow)"
    by (simp_all add: childrenOf_def JOINT_CHILD_MAP_def)
  have f: "totalFactor limbBehaviors l_elbow = 1" "totalFactor limbBehaviors l_hand = 3 / 2"
    by (simp_all add: totalFactor_def limbBehaviors_def)
  note all = t [THEN conjunct2]
  from bspec [OF bspec [OF all a], of l_elbow] c1(1) f(1)
  have s1: "applyChainReaction limbBehaviors l_shoulder 10 zeroPose l_elbow = zeroPose l_elbow + 10 * 1"
    "(l_elbow, 10) \<in> set ?D"
    by simp_all
  from bspec [OF bspec [OF all s1(2)], of l_hand] c1(2) f(2)
  have s2: "applyChainReaction limbBehaviors l_shoulder 10 zeroPose l_hand = zeroPose l_hand + 10 * (3 / 2)"
    "(l_hand, 15) \<in> set ?D"
    by simp_all
  from a c1 f s1 s2 show ?thesis by (simp add: zeroPose_def)
qed

text \<open>
  Claim C6. A joint whose total factor is zero (in particular one whose bend and stretch
  factors are both zero or unset) keeps its base rotation in the returned pose, whatever
  the start joint and delta. When the start joint is one of its ancestors, every joint of
  its subtree keeps its base rotation as well: the propagation stops at the joint.
\<close>

theorem zero_factor_decouples:
  assumes "totalFactor bh z = 0"
  shows "applyChainReaction bh start delta base z = base z
       \<and> (strictDescendant start z \<longrightarrow>
            (\<forall>j. strictDescendant z j \<longrightarrow> applyChainReaction bh start delta base j = base j))"
proof -
  have nz: "z \<notin> cw_child ` set (tr_writes (chainTrace bh start delta base))"
    using chainTrace_written(2) [of _ bh start delta base] assms by auto
  then have a: "applyChainReaction bh start delta base z = base z"
    by (rule chainTrace_unwritten)
  have b: "applyChainReaction bh start delta base j = base j"
    if "strictDescendant start z" "strictDescendant z j" for j
  proof -
    have "j \<notin> cw_child ` set (tr_writes (chainTrace bh start delta base))"
      using written_above [OF that] nz by blast
    then show ?thesis by (rule chainTrace_unwritten)
  qed
  from a b show ?thesis by blast
qed

theorem zero_factor_decouples_witness:
  "totalFactor limbBehaviors l_knee = 0
   \<and> strictDescendant l_hip l_knee \<and> strictDescendant l_knee l_foot
   \<and> totalFactor limbBehaviors l_foot = 1
   \<and> applyChainReaction limbBehaviors l_hip 10 zeroPose l_knee = 0
   \<and> applyChainReaction limbBehaviors l_hip 10 zeroPose l_foot = 0"
proof -
  have z: "totalFactor limbBehaviors l_knee = 0" "totalFactor limbBehaviors l_foot = 1"
    by (simp_all add: totalFactor_def limbBehaviors_def)
  have d: "strictDescendant l_hip l_knee" "strictDescendant l_knee l_foot"
    by (rule strictDescendant.child, simp add: childrenOf_def JOINT_CHILD_MAP_def)+
  from zero_factor_decouples [OF z(1), of l_hip 10 zeroPose] z d
  show ?thesis by (simp add: zeroPose_def)
qed

text \<open>
  Claim C10. The call leaves the pose object it is given as it was: the result is a newly
  allocated object, and every object allocated before the call, the given one among them,
  holds what it held. In the returned pose every joint that is not a strict descendant of
  the start joint, the start joint included, has the rotation of the base pose.
\<close>

theorem chain_frame:
  assumes "initialOffsets < length heap"
    and "j = start \<or> \<not> strictDescendant start j"
  shows "applyChainReaction bh start delta base j = base j
       \<and> fst (applyChainReactionRef bh start delta initialOffsets heap) \<noteq> initialOffsets
       \<and> (\<forall>a<length heap.
             snd (applyChainReactionRef bh start delta initialOffsets heap) ! a = heap ! a)
       \<and> (snd (applyChainReactionRef bh start delta initialOffsets heap)
             ! fst (applyChainReactionRef bh start delta initialOffsets heap)) j
           = (heap ! initialOffsets) j"
proof -
  have unwritten: "applyChainReaction bh start delta p j = p j" for p
  proof -
    have "j \<notin> cw_child ` set (tr_writes (chainTrace bh start delta p))"
      using assms(2) chainTrace_written(3) [of _ bh start delta p]
        chainTrace_distinct(2) [of start bh delta p]
      by auto
    then show ?thesis by (rule chainTrace_unwritten)
  qed
  note ref = applyChainReactionRef_frame [OF assms(1), of bh start delta]
  from unwritten [of base] unwritten [of "heap ! initialOffsets"] ref
  show ?thesis by simp
qed

theorem chain_frame_witness:
  "(0::nat) < length [zeroPose(r_shoulder := 7, l_shoulder := 30)]
   \<and> \<not> strictDescendant l_shoulder r_shoulder
   \<and> applyChainReaction limbBehaviors l_shoulder 10 (zeroPose(r_shoulder := 7)) r_shoulder = 7
   \<and> applyChainReaction limbBehaviors l_shoulder 10 (zeroPose(l_shoulder := 30)) l_shoulder = 30
   \<and> applyChainReaction limbBehaviors l_shoulder 10 (zeroPose(l_shoulder := 30)) l_elbow = 10
   \<and> fst (applyChainReactionRef limbBehaviors l_shoulder 10 0
            [zeroPose(r_shoulder := 7, l_shoulder := 30)]) = 1
   \<and> (snd (applyChainReactionRef limbBehaviors l_shoulder 10 0
            [zeroPose(r_shoulder := 7, l_shoulder := 30)]) ! 0) l_elbow = 0
   \<and> (snd (applyChainReactionRef limbBehaviors l_shoulder 10 0
            [zeroPose(r_shoulder := 7, l_shoulder := 30)]) ! 1) l_elbow = 10
   \<and> (snd (applyChainReactionRef limbBehaviors l_shoulder 10 0
            [zeroPose(r_shoulder := 7, l_shoulder := 30)]) ! 1) r_shoulder = 7"
proof -
  let ?heap = "[zeroPose(r_shoulder := 7, l_shoulder := 30)]"
  have l: "(0::nat) < length ?heap" by simp
  have n: "\<not> strictDescendant l_shoulder r_shoulder"
    using strictDescendant_depth [of l_shoulder r_shoulder] by auto
  then have n': "r_shoulder = l_shoulder \<or> \<not> strictDescendant l_shoulder r_shoulder"
    by simp
  have s: "l_shoulder = l_shoulder \<or> \<not> strictDescendant l_shoulder l_shoulder"
    by simp
  note a = chain_frame [OF l n', of limbBehaviors 10 "zeroPose(r_shoulder := 7)"]
  note b = chain_frame [OF l s, of limbBehaviors 10 "zeroPose(l_shoulder := 30)"]
  have c: "applyChainReaction limbBehaviors l_shoulder 10 (zeroPose(l_shoulder := 30)) l_elbow = 10"
    by (simp add: chain_eval chainStart_def limbBehaviors_def zeroPose_def)
  have d: "fst (applyChainReactionRef limbBehaviors l_shoulder 10 0 ?heap) = 1"
    by (simp add: applyChainReactionRef_def Let_def)
  have e: "(snd (applyChainReactionRef limbBehaviors l_shoulder 10 0 ?heap) ! 1) l_elbow = 10"
    by (simp add: applyChainReactionRef_def chain_eval chainStart_def limbBehaviors_def
        zeroPose_def)
  from a b c d e l n show ?thesis by (simp add: zeroPose_def)
qed

section \<open>Timeline resolution\<close>

lemma interpolatePose_apply:
  "interpolatePose K a b p k = kin_lerpAngleShortestPath K (a k) (b k) p"
  by (cases k) (simp_all add: interpolatePose_def JOINT_KEYS_def)

lemma findSegment_positive:
  "findSegment kfs t = Some seg \<Longrightarrow> 0 < seg_duration seg \<and> seg_startTime seg \<le> t
     \<and> t < seg_startTime seg + seg_duration seg"
  by (induction kfs t rule: findSegment.induct) (auto split: if_splits)

lemma resolveSegment_positive: "0 < seg_duration (resolveSegment kfs t)"
  by (auto simp: resolveSegment_def LOOP_DURATION_def Let_def dest: findSegment_positive
      split: option.splits)

lemma findSegment_beyond:
  "\<forall>k\<in>set kfs. kf_time k \<le> t \<Longrightarrow> findSegment kfs t = None"
  by (induction kfs t rule: findSegment.induct) auto

lemma sorted_le_last:
  "sorted xs \<Longrightarrow> x \<in> set xs \<Longrightarrow> x \<le> last xs"
  by (induction xs) (auto simp: )

lemma lerp_examples:
  "lerpAngleShortestPath 170 (- 170) (1 / 2) = 180"
  "lerpAngleShortestPath 10 350 (1 / 2) = 0"
  by (simp_all add: lerpAngleShortestPath_def jsRemainder_def Let_def)

text \<open>
  Claim C8. With at least two keyframes sorted by time, a query time at or beyond the last
  keyframe's time is resolved in the loop-closing segment: it starts at the last keyframe,
  lasts \<open>LOOP_DURATION\<close> and ends in the pose of the first keyframe, and the pose is
  interpolated from the last keyframe's pose towards the first one's with the eased
  progress. Every query time of every keyframe list is resolved to a segment of positive
  duration, so the progress is never a division by zero; and a duration of 0 gives the
  progress 1.
\<close>

theorem loop_closing_segment:
  assumes "2 \<le> length kfs" and "sorted (map kf_time kfs)" and "kf_time (last kfs) \<le> t"
  shows "resolveSegment kfs t =
           \<lparr>seg_startKeyframe = last kfs, seg_endPose = kf_pose (kfs ! 0),
            seg_startTime = kf_time (last kfs), seg_duration = LOOP_DURATION\<rparr>
       \<and> loopPose K kfs t =
           interpolatePose K (kf_pose (last kfs)) (kf_pose (kfs ! 0))
             (easingFunctions K (case kf_easing (last kfs) of Some e \<Rightarrow> e | None \<Rightarrow> Linear)
                ((t - kf_time (last kfs)) / LOOP_DURATION))
       \<and> (\<forall>kfs' t'. 0 < seg_duration (resolveSegment kfs' t'))
       \<and> (\<forall>x st. segmentProgress x st 0 = 1)"
proof -
  from assms(1) have ne: "kfs \<noteq> []" by auto
  have "\<forall>k\<in>set kfs. kf_time k \<le> t"
  proof
    fix k assume "k \<in> set kfs"
    then have "kf_time k \<in> set (map kf_time kfs)" by simp
    from sorted_le_last [OF assms(2) this] have "kf_time k \<le> last (map kf_time kfs)" .
    also have "\<dots> = kf_time (last kfs)" using ne by (simp add: last_map)
    finally show "kf_time k \<le> t" using assms(3) by simp
  qed
  then have none: "findSegment kfs t = None" by (rule findSegment_beyond)
  have l: "kfs ! (length kfs - Suc 0) = last kfs" using ne by (simp add: last_conv_nth)
  have seg: "resolveSegment kfs t =
           \<lparr>seg_startKeyframe = last kfs, seg_endPose = kf_pose (kfs ! 0),
            seg_startTime = kf_time (last kfs), seg_duration = LOOP_DURATION\<rparr>"
    by (simp add: resolveSegment_def none l Let_def)
  have pose: "loopPose K kfs t =
           interpolatePose K (kf_pose (last kfs)) (kf_pose (kfs ! 0))
             (easingFunctions K (case kf_easing (last kfs) of Some e \<Rightarrow> e | None \<Rightarrow> Linear)
                ((t - kf_time (last kfs)) / LOOP_DURATION))"
    by (simp add: loopPose_def seg segmentProgress_def LOOP_DURATION_def)
  have prog: "\<forall>x st. segmentProgress x st 0 = 1"
    by (simp add: segmentProgress_def)
  from seg pose prog resolveSegment_positive show ?thesis by blast
qed

theorem loop_closing_segment_witness:
  "2 \<le> length elbowTimeline \<and> sorted (map kf_time elbowTimeline)
   \<and> kf_time (last elbowTimeline) \<le> 2500
   \<and> seg_startTime (resolveSegment elbowTimeline 2500) = 2000
   \<and> seg_duration (resolveSegment elbowTimeline 2500) = 1000
   \<and> loopPose specKinematics elbowTimeline 2500 l_elbow = 0
   \<and> loopPose specKinematics elbowTimeline 500 l_elbow = 45"
proof -
  have h: "2 \<le> length elbowTimeline" "sorted (map kf_time elbowTimeline)"
    "kf_time (last elbowTimeline) \<le> 2500"
    by (simp_all add: elbowTimeline_def elbowKeyframe_def)
  note t = loop_closing_segment [OF h, of specKinematics]
  have a: "seg_startTime (resolveSegment elbowTimeline 2500) = 2000"
    "seg_duration (resolveSegment elbowTimeline 2500) = 1000"
    using t by (simp_all add: elbowTimeline_def elbowKeyframe_def LOOP_DURATION_def)
  have b: "loopPose specKinematics elbowTimeline 2500 l_elbow = 0"
    using t by (simp add: interpolatePose_apply elbowTimeline_def elbowKeyframe_def
        specKinematics_def lerpAngleShortestPath_def jsRemainder_def zeroPose_def)
  have c: "loopPose specKinematics elbowTimeline 500 l_elbow = 45"
    by (simp add: loopPose_def resolveSegment_def segmentProgress_def interpolatePose_apply
        easingFunctions_def elbowTimeline_def elbowKeyframe_def specKinematics_def
        lerpAngleShortestPath_def linear_ease_def jsRemainder_def zeroPose_def Let_def)
  from h a b c show ?thesis by blast
qed








section \<open>Keyframe time edits\<close>










section \<open>Selection against playback\<close>




section \<open>Reach of the two-bone solver\<close>

lemma toRadians_toDegrees [simp]: "toRadians (toDegrees r - p + p) = r"
  "toRadians (toDegrees r) = r"
  by (simp_all add: toRadians_def toDegrees_def)














end
